theory Spec2Isabelle
  imports Main "HOL-Library.List_Lexorder" "HOL-Library.Product_Lexorder"
    "HOL-Library.Multiset"
begin

section \<open>Text\<close>

text \<open>
  Python strings are sequences of Unicode code points, so a string is a list of
  code points (natural numbers); \<open>length\<close> counts code points as \<open>len\<close> does.
  The order on strings (\<open><\<close> of Python's \<open>str\<close>) is the lexicographic order on
  code points, the order on tuples is lexicographic as well.
\<close>

type_synonym ustring = "nat list"

definition ustr :: "string \<Rightarrow> ustring" where
  "ustr s = map of_char s"

definition startswith :: "ustring \<Rightarrow> ustring \<Rightarrow> bool" where
  "startswith s p = (take (length p) s = p)"

text \<open>The characters \<open>str.strip()\<close> removes: those for which \<open>str.isspace\<close> holds.\<close>

definition isspace :: "nat \<Rightarrow> bool" where
  "isspace c = ((9 \<le> c \<and> c \<le> 13) \<or> (28 \<le> c \<and> c \<le> 32) \<or> c = 133 \<or> c = 160
     \<or> c = 5760 \<or> (8192 \<le> c \<and> c \<le> 8202) \<or> c = 8232 \<or> c = 8233 \<or> c = 8239
     \<or> c = 8287 \<or> c = 12288)"

definition strip :: "ustring \<Rightarrow> ustring" where
  "strip s = rev (dropWhile isspace (rev (dropWhile isspace s)))"

text \<open>\<open>s.split('\t')\<close>: the fields between tabs; the empty string has one empty field.\<close>

fun split_tab :: "ustring \<Rightarrow> ustring list" where
  "split_tab [] = [[]]"
| "split_tab (c # cs) =
     (if c = 9 then [] # split_tab cs
      else (case split_tab cs of [] \<Rightarrow> [[c]] | f # fs \<Rightarrow> (c # f) # fs))"


text \<open>
  Iterating over the file object yields the lines of the text read, each with
  its newline; the last line may lack one.
\<close>

fun file_lines :: "ustring \<Rightarrow> ustring list" where
  "file_lines [] = []"
| "file_lines (c # cs) =
     (if c = 10 then [c] # file_lines cs
      else (case file_lines cs of [] \<Rightarrow> [[c]] | l # ls \<Rightarrow> (c # l) # ls))"

text \<open>\<open>'%s' % n\<close> for an integer: its decimal digits, with a minus sign below zero.\<close>

fun digits :: "nat \<Rightarrow> ustring" where
  "digits n = (if n < 10 then [48 + n] else digits (n div 10) @ [48 + n mod 10])"

declare digits.simps [simp del]

definition str_int :: "int \<Rightarrow> ustring" where
  "str_int i = (if i < 0 then 45 # digits (nat (- i)) else digits (nat i))"

definition BEGIN_TABLE :: ustring where
  "BEGIN_TABLE = ustr ''BEGIN_TABLE''"

definition END_TABLE :: ustring where
  "END_TABLE = ustr ''END_TABLE''"

definition valid_input_chars_without_x :: ustring where
  "valid_input_chars_without_x = ustr ''abcdefghijklmnopqrstuvwyz''"

section \<open>The runtime and the optional collaborators\<close>

datatype error = ValueError | TypeError | URLError | UnboundLocalError

text \<open>
  What \<open>improve_quick5\<close> calls but the repository does not define:
  \<^item> \<open>py_int\<close>: the builtin \<open>int\<close> on a string, \<open>None\<close> where it raises ValueError;
  \<^item> \<open>variants_imported\<close>: the flag IMPORT_CHINESE_VARIANTS_SUCCESSFUL;
  \<^item> \<open>detect_chinese_category\<close>: the function of the optional module;
  \<^item> \<open>urlopen_ok\<close>: whether the dictionary lookup for a character returns a page
    (otherwise \<open>urlopen\<close>, \<open>read\<close> or \<open>decode\<close> raises).
\<close>

record env =
  py_int :: "ustring \<Rightarrow> int option"
  variants_imported :: bool
  detect_chinese_category :: "ustring \<Rightarrow> int"
  urlopen_ok :: "ustring \<Rightarrow> bool"

section \<open>Record Store\<close>

text \<open>
  The dictionary \<open>table\<close>: keys are pairs (input, chinese_character), values hold
  a weight and a comment. A Python dictionary iterates in insertion order, and
  assigning to an existing key keeps its place, so the store is an association
  list in insertion order.
\<close>

record entry =
  weight :: int
  comment :: ustring

type_synonym key = "ustring \<times> ustring"

type_synonym table = "(key \<times> entry) list"

text \<open>\<open>k in table\<close>\<close>

definition contains :: "table \<Rightarrow> key \<Rightarrow> bool" where
  "contains t k = (map_of t k \<noteq> None)"

text \<open>\<open>table[k]['weight'] = w\<close>, for a key that is in the table\<close>

definition set_weight :: "key \<Rightarrow> int \<Rightarrow> table \<Rightarrow> table" where
  "set_weight k w t = map (\<lambda>(k', e). if k' = k then (k', e\<lparr>weight := w\<rparr>) else (k', e)) t"

section \<open>Table Reader (lines 83 to 125)\<close>

text \<open>Lines 101 to 107: strip, split, pad to four fields, unpack.\<close>

definition unpack_line :: "ustring \<Rightarrow> error + ustring \<times> ustring \<times> ustring \<times> ustring" where
  "unpack_line line =
     (let stripped_line = split_tab (strip line);
          stripped_line = (if length stripped_line < 4 then stripped_line @ [[]] else stripped_line)
      in case stripped_line of
           [input, chinese_character, weight_field, comment_field] \<Rightarrow>
             Inr (input, chinese_character, weight_field, comment_field)
         | _ \<Rightarrow> Inl ValueError)"

text \<open>Lines 108 to 121: merge a duplicate by the larger weight, or insert.\<close>

definition upsert :: "env \<Rightarrow> ustring \<times> ustring \<times> ustring \<times> ustring \<Rightarrow> table \<Rightarrow> error + table" where
  "upsert env f t =
     (case f of (input, chinese_character, weight_field, comment_field) \<Rightarrow>
        (case map_of t (input, chinese_character) of
           Some first \<Rightarrow>
             (case py_int env weight_field of
                None \<Rightarrow> Inl ValueError
              | Some w \<Rightarrow>
                  Inr (set_weight (input, chinese_character) (max w (weight first)) t))
         | None \<Rightarrow>
             (case py_int env weight_field of
                None \<Rightarrow> Inl ValueError
              | Some w \<Rightarrow>
                  Inr (t @ [((input, chinese_character),
                             \<lparr>weight = w, comment = comment_field\<rparr>)]))))"

record reader =
  head :: "ustring list"
  tail :: "ustring list"
  table :: table
  reading_head :: bool
  reading_table :: bool

definition reader_init :: reader where
  "reader_init = \<lparr>head = [], tail = [], table = [], reading_head = True, reading_table = True\<rparr>"

text \<open>The body of the loop over the lines of the input file.\<close>

definition read_line :: "env \<Rightarrow> ustring \<Rightarrow> reader \<Rightarrow> error + reader" where
  "read_line env line s =
     (if reading_head s \<and> \<not> startswith line BEGIN_TABLE then
        Inr (s\<lparr>head := head s @ [line]\<rparr>)
      else if reading_head s then
        Inr (s\<lparr>head := head s @ [BEGIN_TABLE @ [10]], reading_head := False\<rparr>)
      else if reading_table s \<and> \<not> startswith line END_TABLE then
        (case unpack_line line of
           Inl e \<Rightarrow> Inl e
         | Inr f \<Rightarrow>
             (case upsert env f (table s) of
                Inl e \<Rightarrow> Inl e
              | Inr t \<Rightarrow> Inr (s\<lparr>table := t\<rparr>)))
      else Inr (s\<lparr>tail := tail s @ [line], reading_table := False\<rparr>))"

fun read_lines :: "env \<Rightarrow> ustring list \<Rightarrow> reader \<Rightarrow> error + reader" where
  "read_lines env [] s = Inr s"
| "read_lines env (line # ls) s =
     (case read_line env line s of
        Inl e \<Rightarrow> Inl e
      | Inr s' \<Rightarrow> read_lines env ls s')"

section \<open>Variant Normalizer (lines 126 to 173)\<close>

text \<open>
  Line 127: \<open>unicodedata.name\<close> takes one character and raises TypeError on a
  string of any other length. Lines 128 to 141 only log.
\<close>

definition unicode_name :: "ustring \<Rightarrow> error + unit" where
  "unicode_name chinese_character =
     (if length chinese_character = 1 then Inr () else Inl TypeError)"

text \<open>
  Lines 142 to 161: with the optional module, a character of category 1 is looked
  up over the network; the answer is only logged, a failure propagates.
\<close>

definition variants_lookup :: "env \<Rightarrow> ustring \<Rightarrow> error + unit" where
  "variants_lookup env chinese_character =
     (if variants_imported env \<and> detect_chinese_category env chinese_character = 1
         \<and> \<not> urlopen_ok env chinese_character
      then Inl URLError else Inr ())"

text \<open>Lines 165, 166 and 168, 169: set the weight of a key that exists to 900.\<close>

definition demote :: "key \<Rightarrow> table \<Rightarrow> table" where
  "demote k t = (if contains t k then set_weight k 900 t else t)"

text \<open>Lines 164 to 169: the loop over input1 and, nested, the loop over input2.\<close>

definition demote_all :: "ustring \<Rightarrow> table \<Rightarrow> table" where
  "demote_all chinese_character t =
     fold (\<lambda>input1 t.
             fold (\<lambda>input2 t. demote ([input1, input2], chinese_character) t)
               valid_input_chars_without_x
               (demote ([input1], chinese_character) t))
       valid_input_chars_without_x t"

text \<open>The body of the loop over the keys of the table.\<close>

definition visit :: "env \<Rightarrow> key \<Rightarrow> table \<Rightarrow> error + table" where
  "visit env k t =
     (case k of (input, chinese_character) \<Rightarrow>
        (case unicode_name chinese_character of
           Inl e \<Rightarrow> Inl e
         | Inr _ \<Rightarrow>
             (case variants_lookup env chinese_character of
                Inl e \<Rightarrow> Inl e
              | Inr _ \<Rightarrow>
                  Inr (if startswith input (ustr ''x'') then demote_all chinese_character t
                       else t))))"

fun visit_keys :: "env \<Rightarrow> key list \<Rightarrow> table \<Rightarrow> error + table" where
  "visit_keys env [] t = Inr t"
| "visit_keys env (k # ks) t =
     (case visit env k t of
        Inl e \<Rightarrow> Inl e
      | Inr t' \<Rightarrow> visit_keys env ks t')"

text \<open>
  The loop of line 126 runs over the keys the table has when it starts; the body
  assigns to values only, so the keys stay as they are.
\<close>

definition variant_normalizer :: "env \<Rightarrow> table \<Rightarrow> error + table" where
  "variant_normalizer env t = visit_keys env (map fst t) t"

text \<open>
  Lines 170 to 173: the counter logged here is assigned inside the loop body
  only, so with the optional module and an empty table reading it raises.
\<close>

definition log_problems :: "env \<Rightarrow> table \<Rightarrow> error + unit" where
  "log_problems env t =
     (if variants_imported env \<and> t = [] then Inl UnboundLocalError else Inr ())"

section \<open>Table Writer (lines 174 to 192)\<close>

type_synonym sortkey = "ustring \<times> int \<times> nat"

text \<open>\<open>ord\<close> takes a string of length one and raises TypeError otherwise.\<close>

definition ord :: "ustring \<Rightarrow> error + nat" where
  "ord s = (case s of [c] \<Rightarrow> Inr c | _ \<Rightarrow> Inl TypeError)"

text \<open>The key function of \<open>sorted\<close>, lines 179 to 183.\<close>

definition sort_key_of :: "key \<times> entry \<Rightarrow> error + sortkey" where
  "sort_key_of x =
     (case ord (snd (fst x)) of
        Inl e \<Rightarrow> Inl e
      | Inr c \<Rightarrow> Inr (fst (fst x), - weight (snd x), c))"

text \<open>\<open>sorted\<close> computes the key of every item first, then sorts stably by the keys.\<close>

fun decorate :: "(key \<times> entry) list \<Rightarrow> error + (sortkey \<times> key \<times> entry) list" where
  "decorate [] = Inr []"
| "decorate (x # xs) =
     (case sort_key_of x of
        Inl e \<Rightarrow> Inl e
      | Inr k \<Rightarrow> (case decorate xs of Inl e \<Rightarrow> Inl e | Inr ds \<Rightarrow> Inr ((k, x) # ds)))"

definition sorted_items :: "table \<Rightarrow> error + (key \<times> entry) list" where
  "sorted_items t =
     (case decorate t of
        Inl e \<Rightarrow> Inl e
      | Inr ds \<Rightarrow> Inr (map snd (sort_key fst ds)))"

text \<open>Lines 184 to 190: one line of the table body.\<close>

definition format_item :: "key \<times> entry \<Rightarrow> ustring" where
  "format_item x =
     (case x of ((input, chinese_character), v) \<Rightarrow>
        (if comment v \<noteq> [] then
           input @ [9] @ chinese_character @ [9] @ str_int (weight v) @ [9] @ comment v @ [10]
         else input @ [9] @ chinese_character @ [9] @ str_int (weight v) @ [10]))"

section \<open>The run\<close>

text \<open>
  How a run ends: \<open>Abort\<close>, an exception before the output file is opened;
  \<open>Partial\<close>, an exception after it was opened, with the text written so far;
  \<open>Written\<close>, the text of the output file.
\<close>

datatype run = Abort error | Partial error ustring | Written ustring

definition write_file :: "ustring list \<Rightarrow> table \<Rightarrow> ustring list \<Rightarrow> run" where
  "write_file hd_lines t tl_lines =
     (case sorted_items t of
        Inl e \<Rightarrow> Partial e (concat hd_lines)
      | Inr items \<Rightarrow>
          Written (concat hd_lines @ concat (map format_item items) @ concat tl_lines))"

definition improve_quick5 :: "env \<Rightarrow> ustring \<Rightarrow> run" where
  "improve_quick5 env inputfile =
     (case read_lines env (file_lines inputfile) reader_init of
        Inl e \<Rightarrow> Abort e
      | Inr s \<Rightarrow>
          (case variant_normalizer env (table s) of
             Inl e \<Rightarrow> Abort e
           | Inr t \<Rightarrow>
               (case log_problems env t of
                  Inl e \<Rightarrow> Abort e
                | Inr _ \<Rightarrow> write_file (head s) t (tail s))))"


section \<open>Notions of the specification\<close>

text \<open>
  A key of length 1 or 2 that consists only of letters of the 25-letter alphabet.
\<close>

definition short_alpha :: "ustring \<Rightarrow> bool" where
  "short_alpha s =
     ((length s = 1 \<or> length s = 2) \<and> list_all (\<lambda>c. c \<in> set valid_input_chars_without_x) s)"

text \<open>Some record of the table has an input that starts with x and this character.\<close>

definition has_x_record :: "table \<Rightarrow> ustring \<Rightarrow> bool" where
  "has_x_record t ch =
     list_ex (\<lambda>x. startswith (fst (fst x)) (ustr ''x'') \<and> snd (fst x) = ch) t"

text \<open>The table with the weight 900 on every record whose key satisfies \<open>P\<close>.\<close>

definition demoted_where :: "(key \<Rightarrow> bool) \<Rightarrow> table \<Rightarrow> table" where
  "demoted_where P t = map (\<lambda>(k, e). if P k then (k, e\<lparr>weight := 900\<rparr>) else (k, e)) t"

text \<open>What the rule of the normalizer asks for, stated on the whole table at once.\<close>

definition demotion_result :: "table \<Rightarrow> table" where
  "demotion_result t = demoted_where (\<lambda>k. short_alpha (fst k) \<and> has_x_record t (snd k)) t"

text \<open>The pass run twice in succession.\<close>

definition variant_normalizer_twice :: "env \<Rightarrow> table \<Rightarrow> error + table" where
  "variant_normalizer_twice env t =
     (case variant_normalizer env t of
        Inl e \<Rightarrow> Inl e
      | Inr t' \<Rightarrow> variant_normalizer env t')"

text \<open>Every character field of the table is one code point.\<close>

definition single_characters :: "table \<Rightarrow> bool" where
  "single_characters t = list_all (\<lambda>x. length (snd (fst x)) = 1) t"

text \<open>No lookup of the optional module raises on a character of the table.\<close>

definition lookups_quiet :: "env \<Rightarrow> table \<Rightarrow> bool" where
  "lookups_quiet env t = list_all (\<lambda>x. variants_lookup env (snd (fst x)) = Inr ()) t"

text \<open>
  The order of the table body in the words of the specification: by input
  ascending (strings compared code point by code point); for equal inputs by
  weight descending, the higher weight first; for equal inputs and weights by
  the code point of the character ascending.
\<close>

definition precedes :: "key \<times> entry \<Rightarrow> key \<times> entry \<Rightarrow> bool" where
  "precedes a b =
     (fst (fst a) < fst (fst b)
      \<or> (fst (fst a) = fst (fst b)
          \<and> (weight (snd b) < weight (snd a)
              \<or> (weight (snd a) = weight (snd b)
                  \<and> (case (snd (fst a), snd (fst b)) of
                        ([c], [d]) \<Rightarrow> c < d
                      | _ \<Rightarrow> False)))))"

subsection \<open>The regions of the input file\<close>

text \<open>The lines before the first line that starts with BEGIN_TABLE.\<close>

definition header_lines :: "ustring list \<Rightarrow> ustring list" where
  "header_lines ls = takeWhile (\<lambda>l. \<not> startswith l BEGIN_TABLE) ls"

text \<open>Some line starts with BEGIN_TABLE.\<close>

definition has_marker :: "ustring list \<Rightarrow> bool" where
  "has_marker ls = list_ex (\<lambda>l. startswith l BEGIN_TABLE) ls"

text \<open>The lines after the first line that starts with BEGIN_TABLE.\<close>

definition after_marker :: "ustring list \<Rightarrow> ustring list" where
  "after_marker ls = drop 1 (dropWhile (\<lambda>l. \<not> startswith l BEGIN_TABLE) ls)"

text \<open>The table region: the lines after the marker, up to the first of them that
  starts with END_TABLE.\<close>

definition table_region :: "ustring list \<Rightarrow> ustring list" where
  "table_region ls = takeWhile (\<lambda>l. \<not> startswith l END_TABLE) (after_marker ls)"

text \<open>The lines from that END_TABLE line on, inclusive.\<close>

definition trailer_lines :: "ustring list \<Rightarrow> ustring list" where
  "trailer_lines ls = dropWhile (\<lambda>l. \<not> startswith l END_TABLE) (after_marker ls)"

text \<open>The header with the canonical marker line in the place of the marker.\<close>

definition written_head :: "ustring list \<Rightarrow> ustring list" where
  "written_head ls = header_lines ls @ (if has_marker ls then [BEGIN_TABLE @ [10]] else [])"

subsection \<open>The records of the table region\<close>

text \<open>The reader on the lines of the table region alone.\<close>

fun store_lines :: "env \<Rightarrow> ustring list \<Rightarrow> table \<Rightarrow> error + table" where
  "store_lines env [] t = Inr t"
| "store_lines env (line # ls) t =
     (case unpack_line line of
        Inl e \<Rightarrow> Inl e
      | Inr f \<Rightarrow>
          (case upsert env f t of
             Inl e \<Rightarrow> Inl e
           | Inr t' \<Rightarrow> store_lines env ls t'))"

text \<open>The record a line stands for: its key, its weight as an integer, its comment;
  \<open>None\<close> where the line does not unpack or its weight is no integer.\<close>

definition parsed :: "env \<Rightarrow> ustring \<Rightarrow> (key \<times> int \<times> ustring) option" where
  "parsed env l =
     (case unpack_line l of
        Inl e \<Rightarrow> None
      | Inr (input, chinese_character, weight_field, comment_field) \<Rightarrow>
          (case py_int env weight_field of
             None \<Rightarrow> None
           | Some w \<Rightarrow> Some ((input, chinese_character), w, comment_field)))"

definition records_of :: "env \<Rightarrow> ustring list \<Rightarrow> (key \<times> int \<times> ustring) list" where
  "records_of env ls = List.map_filter (parsed env) ls"

definition all_parse :: "env \<Rightarrow> ustring list \<Rightarrow> bool" where
  "all_parse env ls = list_all (\<lambda>l. parsed env l \<noteq> None) ls"

text \<open>Storing one record: lines 108 to 121 on a parsed line.\<close>

definition put :: "key \<times> int \<times> ustring \<Rightarrow> table \<Rightarrow> table" where
  "put r t =
     (case r of (k, w, c) \<Rightarrow>
        (case map_of t k of
           Some first \<Rightarrow> set_weight k (max w (weight first)) t
         | None \<Rightarrow> t @ [(k, \<lparr>weight = w, comment = c\<rparr>)]))"

text \<open>The weights of the lines with key \<open>k\<close>, in the order of the file, and the largest
  of a list of weights.\<close>

definition weights_seen :: "env \<Rightarrow> ustring list \<Rightarrow> key \<Rightarrow> int list" where
  "weights_seen env ls k = map (\<lambda>r. fst (snd r)) (filter (\<lambda>r. fst r = k) (records_of env ls))"

definition max_weight :: "int list \<Rightarrow> int option" where
  "max_weight ws = (if ws = [] then None else Some (Max (set ws)))"

text \<open>The comment of the first line with key \<open>k\<close>.\<close>

definition first_comment :: "env \<Rightarrow> ustring list \<Rightarrow> key \<Rightarrow> ustring option" where
  "first_comment env ls k =
     map_option (\<lambda>r. snd (snd r)) (find (\<lambda>r. fst r = k) (records_of env ls))"

text \<open>A malformed line of the table region: after stripping and splitting at tabs
  it has not 3 or 4 fields, or its weight field is no integer, or its character
  field is not exactly one code point.\<close>

definition malformed :: "env \<Rightarrow> ustring \<Rightarrow> bool" where
  "malformed env l =
     (case split_tab (strip l) of
        [input, chinese_character, weight_field] \<Rightarrow>
          py_int env weight_field = None \<or> length chinese_character \<noteq> 1
      | [input, chinese_character, weight_field, comment_field] \<Rightarrow>
          py_int env weight_field = None \<or> length chinese_character \<noteq> 1
      | _ \<Rightarrow> True)"



section \<open>A concrete environment and table\<close>

text \<open>
  The builtin \<open>int\<close> on a string, as CPython 3.11 computes it with its default
  limit of 4300 digits and the decimal digits of Unicode 14.0. Around the number
  it skips ASCII whitespace (tab to carriage return, space) and the whitespace
  beyond ASCII; the number is an optional sign and decimal digits, with single
  underscores allowed between digits. \<open>decimal_zeros\<close> lists the digit zero of
  every run of ten decimal digits beyond ASCII.
\<close>

definition decimal_zeros :: "nat list" where
  "decimal_zeros =
     [1632, 1776, 1984, 2406, 2534, 2662, 2790, 2918, 3046, 3174, 3302, 3430, 3558,
      3664, 3792, 3872, 4160, 4240, 6112, 6160, 6470, 6608, 6784, 6800, 6992, 7088,
      7232, 7248, 42528, 43216, 43264, 43472, 43504, 43600, 44016, 65296, 66720,
      68912, 69734, 69872, 69942, 70096, 70384, 70736, 70864, 71248, 71360, 71472,
      71904, 72016, 72784, 73040, 73120, 92768, 92864, 93008, 120782, 120792,
      120802, 120812, 120822, 123200, 123632, 125264, 130032]"

definition to_decimal :: "nat \<Rightarrow> nat option" where
  "to_decimal c =
     (if 48 \<le> c \<and> c \<le> 57 then Some (c - 48)
      else if c < 127 then None
      else (case filter (\<lambda>z. z \<le> c \<and> c < z + 10) decimal_zeros of
              [] \<Rightarrow> None
            | z # _ \<Rightarrow> Some (c - z)))"

definition int_space :: "nat \<Rightarrow> bool" where
  "int_space c = ((9 \<le> c \<and> c \<le> 13) \<or> c = 32 \<or> (127 \<le> c \<and> isspace c))"

text \<open>
  The digits after the sign: \<open>prev\<close> is the character before (0 at the start),
  \<open>n\<close> counts the digits, \<open>acc\<close> is the value so far.
\<close>

fun scan_digits :: "ustring \<Rightarrow> nat \<Rightarrow> nat \<Rightarrow> nat \<Rightarrow> nat option" where
  "scan_digits [] prev n acc =
     (if prev = 95 \<or> n = 0 \<or> 4300 < n then None else Some acc)"
| "scan_digits (c # cs) prev n acc =
     (if c = 95 then (if prev = 95 \<or> prev = 0 then None else scan_digits cs c n acc)
      else (case to_decimal c of
              None \<Rightarrow> None
            | Some d \<Rightarrow> scan_digits cs c (n + 1) (10 * acc + d)))"

definition dec_int :: "ustring \<Rightarrow> int option" where
  "dec_int s =
     (case rev (dropWhile int_space (rev (dropWhile int_space s))) of
        [] \<Rightarrow> None
      | c # cs \<Rightarrow>
          if c = 45 then map_option (\<lambda>v. - int v) (scan_digits cs 0 0 0)
          else if c = 43 then map_option int (scan_digits cs 0 0 0)
          else map_option int (scan_digits (c # cs) 0 0 0))"

text \<open>The optional module is absent in \<open>plain_env\<close>.\<close>

definition plain_env :: env where
  "plain_env = \<lparr>py_int = dec_int, variants_imported = False,
     detect_chinese_category = (\<lambda>_. 0), urlopen_ok = (\<lambda>_. True)\<rparr>"

text \<open>
  With the optional module: the character U+8282 is of category 1 and is looked
  up. In \<open>module_env\<close> the lookups return; in \<open>offline_env\<close> they raise.
\<close>

definition module_env :: env where
  "module_env = plain_env\<lparr>variants_imported := True,
     detect_chinese_category := (\<lambda>ch. if ch = [33410] then 1 else 3)\<rparr>"

definition offline_env :: env where
  "offline_env = module_env\<lparr>urlopen_ok := (\<lambda>_. False)\<rparr>"

definition example_table :: table where
  "example_table =
     [((ustr ''a'', [20013]), \<lparr>weight = 1000, comment = []\<rparr>),
      ((ustr ''x'', [20013]), \<lparr>weight = 1000, comment = []\<rparr>),
      ((ustr ''ab'', [23383]), \<lparr>weight = 500, comment = []\<rparr>),
      ((ustr ''q'', [33410]), \<lparr>weight = 1000, comment = ustr ''first''\<rparr>),
      ((ustr ''q'', [33422]), \<lparr>weight = 1000, comment = []\<rparr>),
      ((ustr ''q'', [40856]), \<lparr>weight = 1200, comment = []\<rparr>)]"

definition example_table_normalized :: table where
  "example_table_normalized =
     [((ustr ''a'', [20013]), \<lparr>weight = 900, comment = []\<rparr>),
      ((ustr ''x'', [20013]), \<lparr>weight = 1000, comment = []\<rparr>),
      ((ustr ''ab'', [23383]), \<lparr>weight = 500, comment = []\<rparr>),
      ((ustr ''q'', [33410]), \<lparr>weight = 1000, comment = ustr ''first''\<rparr>),
      ((ustr ''q'', [33422]), \<lparr>weight = 1000, comment = []\<rparr>),
      ((ustr ''q'', [40856]), \<lparr>weight = 1200, comment = []\<rparr>)]"

text \<open>
  The records in the order of the output: among the three records with input q,
  the weight 1200 comes first although its code point is the largest, then the
  two records of weight 1000 by code point.
\<close>

definition example_items :: "(key \<times> entry) list" where
  "example_items =
     [((ustr ''a'', [20013]), \<lparr>weight = 900, comment = []\<rparr>),
      ((ustr ''ab'', [23383]), \<lparr>weight = 500, comment = []\<rparr>),
      ((ustr ''q'', [40856]), \<lparr>weight = 1200, comment = []\<rparr>),
      ((ustr ''q'', [33410]), \<lparr>weight = 1000, comment = ustr ''first''\<rparr>),
      ((ustr ''q'', [33422]), \<lparr>weight = 1000, comment = []\<rparr>),
      ((ustr ''x'', [20013]), \<lparr>weight = 1000, comment = []\<rparr>)]"

text \<open>An input file, its lines, its table region and the file written for it.\<close>

definition example_region :: "ustring list" where
  "example_region =
     [ustr ''a'' @ [9, 20013, 9] @ ustr ''1000'' @ [10],
      ustr ''x'' @ [9, 20013, 9] @ ustr ''1000'' @ [10],
      ustr ''ab'' @ [9, 23383, 9] @ ustr ''500'' @ [10],
      ustr ''q'' @ [9, 33410, 9] @ ustr ''1000'' @ [9] @ ustr ''first'' @ [10],
      ustr ''q'' @ [9, 33410, 9] @ ustr ''800'' @ [9] @ ustr ''second'' @ [10],
      ustr ''q'' @ [9, 33422, 9] @ ustr ''1000'' @ [10],
      ustr ''q'' @ [9, 40856, 9] @ ustr ''1200'' @ [10]]"

definition example_lines :: "ustring list" where
  "example_lines =
     [ustr ''# quick5'' @ [10], ustr ''BEGIN_TABLE extra'' @ [10]] @ example_region
     @ [ustr ''END_TABLE'' @ [10], ustr ''trailer'']"

definition example_file :: ustring where
  "example_file = concat example_lines"

definition example_output :: ustring where
  "example_output =
     ustr ''# quick5'' @ [10] @ ustr ''BEGIN_TABLE'' @ [10]
     @ ustr ''a'' @ [9, 20013, 9] @ ustr ''900'' @ [10]
     @ ustr ''ab'' @ [9, 23383, 9] @ ustr ''500'' @ [10]
     @ ustr ''q'' @ [9, 40856, 9] @ ustr ''1200'' @ [10]
     @ ustr ''q'' @ [9, 33410, 9] @ ustr ''1000'' @ [9] @ ustr ''first'' @ [10]
     @ ustr ''q'' @ [9, 33422, 9] @ ustr ''1000'' @ [10]
     @ ustr ''x'' @ [9, 20013, 9] @ ustr ''1000'' @ [10]
     @ ustr ''END_TABLE'' @ [10] @ ustr ''trailer''"



text \<open>
  Two files with a malformed line in the table region (a weight that is no
  integer; a character field of two code points), and a file without the marker.
\<close>

definition bad_weight_file :: ustring where
  "bad_weight_file =
     ustr ''BEGIN_TABLE'' @ [10] @ ustr ''a'' @ [9, 20013, 9] @ ustr ''high'' @ [10]
     @ ustr ''END_TABLE'' @ [10]"

definition bad_character_file :: ustring where
  "bad_character_file =
     ustr ''BEGIN_TABLE'' @ [10] @ ustr ''a'' @ [9, 20013, 25991, 9] @ ustr ''1000'' @ [10]
     @ ustr ''END_TABLE'' @ [10]"

definition unmarked_file :: ustring where
  "unmarked_file = ustr ''a'' @ [9, 20013, 9] @ ustr ''1000'' @ [10]"

section \<open>Properties\<close>

subsection \<open>The normalizer as one update of the table\<close>

lemma keys_demoted_where: "map fst (demoted_where P t) = map fst t"
  by (induction t) (auto simp: demoted_where_def)

lemma demoted_where_none: "demoted_where (\<lambda>_. False) t = t"
  by (induction t) (auto simp: demoted_where_def)

lemma demoted_where_cong: "(\<And>k. k \<in> fst ` set t \<Longrightarrow> P k = Q k) \<Longrightarrow> demoted_where P t = demoted_where Q t"
  by (induction t) (auto simp: demoted_where_def)

lemma contains_iff: "contains t k \<longleftrightarrow> k \<in> fst ` set t"
  by (simp add: contains_def map_of_eq_None_iff)

lemma contains_demoted_where: "contains (demoted_where P t) k = contains t k"
  by (metis contains_iff keys_demoted_where set_map)

lemma set_weight_demoted_where:
  "set_weight k 900 (demoted_where P t) = demoted_where (\<lambda>k'. P k' \<or> k' = k) t"
  by (induction t) (auto simp: demoted_where_def set_weight_def)

lemma demote_demoted_where:
  "demote k (demoted_where P t) = demoted_where (\<lambda>k'. P k' \<or> k' = k) t"
proof (cases "contains t k")
  case True
  then show ?thesis
    by (simp add: demote_def contains_demoted_where set_weight_demoted_where)
next
  case False
  then have "demoted_where P t = demoted_where (\<lambda>k'. P k' \<or> k' = k) t"
    by (intro demoted_where_cong) (auto simp: contains_iff)
  with False show ?thesis
    by (simp add: demote_def contains_demoted_where)
qed

lemma fold_inner:
  "fold (\<lambda>input2 t. demote ([input1, input2], ch) t) cs (demoted_where P t)
     = demoted_where (\<lambda>k. P k \<or> (\<exists>c2 \<in> set cs. k = ([input1, c2], ch))) t"
proof (induction cs arbitrary: P)
  case Nil
  then show ?case by simp
next
  case (Cons c cs)
  show ?case
    by (simp add: demote_demoted_where Cons.IH disj_ac)
qed

lemma fold_outer:
  "fold (\<lambda>input1 t. fold (\<lambda>input2 t. demote ([input1, input2], ch) t) ds
                       (demote ([input1], ch) t)) cs (demoted_where P t)
     = demoted_where (\<lambda>k. P k \<or> (\<exists>c1 \<in> set cs. k = ([c1], ch) \<or> (\<exists>c2 \<in> set ds. k = ([c1, c2], ch)))) t"
proof (induction cs arbitrary: P)
  case Nil
  then show ?case by simp
next
  case (Cons c cs)
  show ?case
    by (simp add: demote_demoted_where fold_inner Cons.IH disj_ac)
qed

lemma short_alpha_iff:
  "short_alpha s \<longleftrightarrow> (\<exists>c1 \<in> set valid_input_chars_without_x. s = [c1] \<or> (\<exists>c2 \<in> set valid_input_chars_without_x. s = [c1, c2]))"
proof -
  have "length s = 1 \<longleftrightarrow> (\<exists>a. s = [a])" by (cases s) auto
  moreover have "length s = 2 \<longleftrightarrow> (\<exists>a b. s = [a, b])"
    by (cases s; cases "tl s") auto
  ultimately show ?thesis
    unfolding short_alpha_def by (auto simp: list_all_iff)
qed

lemma demote_all_demoted_where:
  "demote_all ch (demoted_where P t) = demoted_where (\<lambda>k. P k \<or> (short_alpha (fst k) \<and> snd k = ch)) t"
  unfolding demote_all_def fold_outer short_alpha_iff
  by (rule arg_cong2 [where f = demoted_where]) (auto simp: fun_eq_iff)


lemma demoted_where_twice:
  "demoted_where P (demoted_where Q t) = demoted_where (\<lambda>k. Q k \<or> P k) t"
  by (induction t) (auto simp: demoted_where_def)

lemma visit_demoted_where:
  assumes "visit env k (demoted_where P t) = Inr t'"
  shows "t' = demoted_where
           (\<lambda>k'. P k' \<or> (short_alpha (fst k') \<and> startswith (fst k) (ustr ''x'') \<and> snd k = snd k')) t"
proof (cases "startswith (fst k) (ustr ''x'')")
  case True
  with assms have "t' = demote_all (snd k) (demoted_where P t)"
    by (auto simp: visit_def split: prod.splits sum.splits)
  with True show ?thesis
    by (simp add: demote_all_demoted_where eq_commute)
next
  case False
  with assms have "t' = demoted_where P t"
    by (auto simp: visit_def split: prod.splits sum.splits)
  with False show ?thesis by simp
qed

lemma visit_keys_demoted_where:
  "visit_keys env ks (demoted_where P t) = Inr t' \<Longrightarrow>
   t' = demoted_where
          (\<lambda>k'. P k' \<or> (short_alpha (fst k') \<and>
                 (\<exists>k \<in> set ks. startswith (fst k) (ustr ''x'') \<and> snd k = snd k'))) t"
proof (induction ks arbitrary: P)
  case Nil
  then show ?case by simp
next
  case (Cons k ks)
  from Cons.prems obtain t1 where v: "visit env k (demoted_where P t) = Inr t1"
    and r: "visit_keys env ks t1 = Inr t'"
    by (auto split: sum.splits)
  note t1 = visit_demoted_where [OF v]
  from r have "t' = demoted_where
      (\<lambda>k'. (P k' \<or> (short_alpha (fst k') \<and> startswith (fst k) (ustr ''x'') \<and> snd k = snd k'))
          \<or> (short_alpha (fst k') \<and> (\<exists>k \<in> set ks. startswith (fst k) (ustr ''x'') \<and> snd k = snd k'))) t"
    unfolding t1 by (rule Cons.IH)
  also have "\<dots> = demoted_where
      (\<lambda>k'. P k' \<or> (short_alpha (fst k') \<and>
             (\<exists>k \<in> set (k # ks). startswith (fst k) (ustr ''x'') \<and> snd k = snd k'))) t"
    by (rule arg_cong2 [where f = demoted_where]) (auto simp: fun_eq_iff)
  finally show ?case .
qed

lemma has_x_record_iff:
  "has_x_record t ch \<longleftrightarrow> (\<exists>k \<in> set (map fst t). startswith (fst k) (ustr ''x'') \<and> snd k = ch)"
  by (auto simp: has_x_record_def list_ex_iff)

lemma normalizer_demoted_where:
  assumes "variant_normalizer env t = Inr t'"
  shows "t' = demoted_where (\<lambda>k. short_alpha (fst k) \<and> has_x_record t (snd k)) t"
proof -
  from assms have "visit_keys env (map fst t) (demoted_where (\<lambda>_. False) t) = Inr t'"
    by (simp add: variant_normalizer_def demoted_where_none)
  from visit_keys_demoted_where [OF this] show ?thesis
    by (simp add: has_x_record_iff)
qed

lemma visit_keys_returns_iff:
  "(\<exists>t'. visit_keys env ks t = Inr t') \<longleftrightarrow>
   (\<forall>k \<in> set ks. unicode_name (snd k) = Inr () \<and> variants_lookup env (snd k) = Inr ())"
proof (induction ks arbitrary: t)
  case Nil
  then show ?case by simp
next
  case (Cons k ks)
  show ?case
  proof (cases "visit env k t")
    case (Inl e)
    then show ?thesis
      by (auto simp: visit_def split: prod.splits sum.splits)
  next
    case (Inr t1)
    then have "unicode_name (snd k) = Inr () \<and> variants_lookup env (snd k) = Inr ()"
      by (auto simp: visit_def split: prod.splits sum.splits)
    with Inr Cons.IH [of t1] show ?thesis by simp
  qed
qed

lemma normalizer_keys:
  "variant_normalizer env t = Inr t' \<Longrightarrow> map fst t' = map fst t"
  by (drule normalizer_demoted_where) (simp add: keys_demoted_where)

lemma has_x_record_keys:
  "map fst t' = map fst t \<Longrightarrow> has_x_record t' = has_x_record t"
  by (simp add: fun_eq_iff has_x_record_iff)

lemma normalizer_again:
  assumes "variant_normalizer env t = Inr t'"
  shows "variant_normalizer env t' = Inr t'"
proof -
  note keys = normalizer_keys [OF assms]
  have "\<exists>u. visit_keys env (map fst t) t = Inr u"
    using assms by (auto simp: variant_normalizer_def)
  then have "\<exists>u. visit_keys env (map fst t') t' = Inr u"
    unfolding keys visit_keys_returns_iff .
  then obtain u where u: "variant_normalizer env t' = Inr u"
    by (auto simp: variant_normalizer_def)
  define Q where "Q = (\<lambda>k. short_alpha (fst k) \<and> has_x_record t (snd k))"
  have e: "t' = demoted_where Q t"
    unfolding Q_def by (rule normalizer_demoted_where [OF assms])
  have "u = demoted_where (\<lambda>k. short_alpha (fst k) \<and> has_x_record t' (snd k)) t'"
    by (rule normalizer_demoted_where [OF u])
  also have "\<dots> = demoted_where Q t'"
    unfolding has_x_record_keys [OF keys] Q_def ..
  also have "\<dots> = demoted_where Q (demoted_where Q t)"
    using e by simp
  also have "\<dots> = t'"
    unfolding e by (simp add: demoted_where_twice)
  finally show ?thesis using u by simp
qed

lemma mem_demoted_where:
  "(k, e) \<in> set (demoted_where P t) \<Longrightarrow> P k \<Longrightarrow> weight e = 900"
  by (auto simp: demoted_where_def split: if_splits)

lemma map_of_demoted_where:
  "\<not> P k \<Longrightarrow> map_of (demoted_where P t) k = map_of t k"
  by (induction t) (auto simp: demoted_where_def)

lemma variant_normalizer_returns:
  assumes "single_characters t" and "lookups_quiet env t"
  shows "variant_normalizer env t = Inr (demotion_result t)"
proof -
  from assms have "\<forall>k \<in> set (map fst t).
      unicode_name (snd k) = Inr () \<and> variants_lookup env (snd k) = Inr ()"
    by (auto simp: single_characters_def lookups_quiet_def list_all_iff unicode_name_def)
  then have "\<exists>t'. visit_keys env (map fst t) t = Inr t'"
    by (simp only: visit_keys_returns_iff)
  then obtain t' where t': "variant_normalizer env t = Inr t'"
    unfolding variant_normalizer_def by blast
  with normalizer_demoted_where [OF t'] show ?thesis
    by (simp add: demotion_result_def)
qed

lemma alphabet: "valid_input_chars_without_x = [97,98,99,100,101,102,103,104,105,106,107,108,109,110,111,112,113,114,115,116,117,118,119,121,122]"
  by (simp add: valid_input_chars_without_x_def ustr_def)

subsection \<open>The reader, region by region\<close>

lemma read_lines_trailer:
  "\<not> reading_head s \<Longrightarrow> \<not> reading_table s \<Longrightarrow>
   read_lines env ls s =
     Inr \<lparr>head = head s, tail = tail s @ ls, table = table s,
          reading_head = False, reading_table = False\<rparr>"
proof (induction ls arbitrary: s)
  case Nil
  then show ?case by simp
next
  case (Cons l ls)
  let ?s = "s\<lparr>tail := tail s @ [l], reading_table := False\<rparr>"
  from Cons.prems have "read_line env l s = Inr ?s"
    by (simp add: read_line_def)
  moreover have "read_lines env ls ?s =
      Inr \<lparr>head = head ?s, tail = tail ?s @ ls, table = table ?s,
           reading_head = False, reading_table = False\<rparr>"
    using Cons.prems by (intro Cons.IH) simp_all
  ultimately show ?case by simp
qed

lemma read_lines_table:
  "\<not> reading_head s \<Longrightarrow> reading_table s \<Longrightarrow>
   read_lines env ls s =
     (case store_lines env (takeWhile (\<lambda>l. \<not> startswith l END_TABLE) ls) (table s) of
        Inl e \<Rightarrow> Inl e
      | Inr t \<Rightarrow>
          Inr \<lparr>head = head s,
               tail = tail s @ dropWhile (\<lambda>l. \<not> startswith l END_TABLE) ls,
               table = t, reading_head = False,
               reading_table = (dropWhile (\<lambda>l. \<not> startswith l END_TABLE) ls = [])\<rparr>)"
proof (induction ls arbitrary: s)
  case Nil
  then show ?case by simp
next
  case (Cons l ls)
  show ?case
  proof (cases "startswith l END_TABLE")
    case True
    let ?s = "s\<lparr>tail := tail s @ [l], reading_table := False\<rparr>"
    from True Cons.prems have "read_line env l s = Inr ?s"
      by (simp add: read_line_def)
    moreover have "read_lines env ls ?s =
        Inr \<lparr>head = head ?s, tail = tail ?s @ ls, table = table ?s,
             reading_head = False, reading_table = False\<rparr>"
      using Cons.prems by (intro read_lines_trailer) simp_all
    ultimately show ?thesis using True by simp
  next
    case False
    show ?thesis
    proof (cases "unpack_line l")
      case (Inl e)
      with False Cons.prems show ?thesis by (simp add: read_line_def)
    next
      case f: (Inr f)
      show ?thesis
      proof (cases "upsert env f (table s)")
        case (Inl e)
        with f False Cons.prems show ?thesis by (simp add: read_line_def)
      next
        case (Inr t)
        with f False Cons.prems have "read_line env l s = Inr (s\<lparr>table := t\<rparr>)"
          by (simp add: read_line_def)
        moreover have "read_lines env ls (s\<lparr>table := t\<rparr>) =
          (case store_lines env (takeWhile (\<lambda>l. \<not> startswith l END_TABLE) ls) (table (s\<lparr>table := t\<rparr>)) of
            Inl e \<Rightarrow> Inl e
          | Inr t' \<Rightarrow>
              Inr \<lparr>head = head (s\<lparr>table := t\<rparr>),
                   tail = tail (s\<lparr>table := t\<rparr>) @ dropWhile (\<lambda>l. \<not> startswith l END_TABLE) ls,
                   table = t', reading_head = False,
                   reading_table = (dropWhile (\<lambda>l. \<not> startswith l END_TABLE) ls = [])\<rparr>)"
          using Cons.prems by (intro Cons.IH) simp_all
        ultimately show ?thesis using f Inr False by (simp split: sum.split)
      qed
    qed
  qed
qed

lemma read_lines_header:
  "reading_head s \<Longrightarrow> reading_table s \<Longrightarrow> tail s = [] \<Longrightarrow>
   read_lines env ls s =
     (case store_lines env (table_region ls) (table s) of
        Inl e \<Rightarrow> Inl e
      | Inr t \<Rightarrow>
          Inr \<lparr>head = head s @ written_head ls, tail = trailer_lines ls, table = t,
               reading_head = (\<not> has_marker ls),
               reading_table = (trailer_lines ls = [])\<rparr>)"
proof (induction ls arbitrary: s)
  case Nil
  then show ?case
    by (simp add: table_region_def after_marker_def trailer_lines_def written_head_def
        header_lines_def has_marker_def)
next
  case (Cons l ls)
  show ?case
  proof (cases "startswith l BEGIN_TABLE")
    case True
    let ?s = "s\<lparr>head := head s @ [BEGIN_TABLE @ [10]], reading_head := False\<rparr>"
    from True Cons.prems have "read_line env l s = Inr ?s"
      by (simp add: read_line_def)
    moreover have "read_lines env ls ?s =
       (case store_lines env (takeWhile (\<lambda>l. \<not> startswith l END_TABLE) ls) (table ?s) of
        Inl e \<Rightarrow> Inl e
      | Inr t \<Rightarrow>
          Inr \<lparr>head = head ?s,
               tail = tail ?s @ dropWhile (\<lambda>l. \<not> startswith l END_TABLE) ls,
               table = t, reading_head = False,
               reading_table = (dropWhile (\<lambda>l. \<not> startswith l END_TABLE) ls = [])\<rparr>)"
      using Cons.prems by (intro read_lines_table) simp_all
    ultimately show ?thesis
      using True Cons.prems
      by (simp add: table_region_def after_marker_def trailer_lines_def written_head_def
          header_lines_def has_marker_def split: sum.split)
  next
    case False
    let ?s = "s\<lparr>head := head s @ [l]\<rparr>"
    from False Cons.prems have "read_line env l s = Inr ?s"
      by (simp add: read_line_def)
    moreover have "read_lines env ls ?s =
     (case store_lines env (table_region ls) (table ?s) of
        Inl e \<Rightarrow> Inl e
      | Inr t \<Rightarrow>
          Inr \<lparr>head = head ?s @ written_head ls, tail = trailer_lines ls, table = t,
               reading_head = (\<not> has_marker ls),
               reading_table = (trailer_lines ls = [])\<rparr>)"
      using Cons.prems by (intro Cons.IH) simp_all
    ultimately show ?thesis
      using False
      by (simp add: table_region_def after_marker_def trailer_lines_def written_head_def
          header_lines_def has_marker_def split: sum.split)
  qed
qed

lemma read_lines_init:
  "read_lines env ls reader_init =
     (case store_lines env (table_region ls) [] of
        Inl e \<Rightarrow> Inl e
      | Inr t \<Rightarrow>
          Inr \<lparr>head = written_head ls, tail = trailer_lines ls, table = t,
               reading_head = (\<not> has_marker ls),
               reading_table = (trailer_lines ls = [])\<rparr>)"
  using read_lines_header [of reader_init env ls] by (simp add: reader_init_def split: sum.split)

lemma store_step:
  "(case unpack_line l of
      Inl e \<Rightarrow> Inl e
    | Inr f \<Rightarrow> upsert env f t)
   = (case parsed env l of None \<Rightarrow> Inl ValueError | Some r \<Rightarrow> Inr (put r t))"
proof (cases "unpack_line l")
  case (Inl e)
  then have "e = ValueError"
    by (auto simp: unpack_line_def Let_def split: list.splits if_splits)
  with Inl show ?thesis by (simp add: parsed_def)
next
  case (Inr f)
  then show ?thesis
    by (cases f) (simp add: parsed_def upsert_def put_def split: option.splits)
qed

lemma store_lines_fold:
  "store_lines env ls t =
     (if all_parse env ls then Inr (fold put (records_of env ls) t) else Inl ValueError)"
proof (induction ls arbitrary: t)
  case Nil
  then show ?case by (simp add: all_parse_def records_of_def map_filter_simps)
next
  case (Cons l ls)
  have "store_lines env (l # ls) t =
      (case (case unpack_line l of Inl e \<Rightarrow> Inl e | Inr f \<Rightarrow> upsert env f t) of
         Inl e \<Rightarrow> Inl e
       | Inr t' \<Rightarrow> store_lines env ls t')"
    by (simp split: sum.splits)
  also have "\<dots> = (case parsed env l of
                      None \<Rightarrow> Inl ValueError
                    | Some r \<Rightarrow> store_lines env ls (put r t))"
    unfolding store_step by (simp split: option.splits)
  finally show ?case
    by (simp add: Cons.IH all_parse_def records_of_def map_filter_simps split: option.splits)
qed

lemma map_of_set_weight:
  "map_of (set_weight k w t) k' =
     (if k' = k then map_option (\<lambda>e. e\<lparr>weight := w\<rparr>) (map_of t k) else map_of t k')"
  by (induction t) (auto simp: set_weight_def)

lemma keys_set_weight: "map fst (set_weight k w t) = map fst t"
  by (induction t) (auto simp: set_weight_def)

lemma keys_put:
  "map fst (put r t) = (if fst r \<in> set (map fst t) then map fst t else map fst t @ [fst r])"
proof (cases r)
  case (fields k w c)
  show ?thesis
  proof (cases "map_of t k")
    case None
    then have "k \<notin> fst ` set t" by (simp add: map_of_eq_None_iff)
    with None fields show ?thesis by (simp add: put_def)
  next
    case (Some e)
    then have "k \<in> fst ` set t" by (force dest: map_of_SomeD)
    with Some fields show ?thesis by (simp add: put_def keys_set_weight)
  qed
qed

lemma distinct_put: "distinct (map fst t) \<Longrightarrow> distinct (map fst (put r t))"
  by (simp add: keys_put)

lemma map_of_put:
  "map_of (put (k, w, c) t) k' =
     (if k' = k then
        Some (case map_of t k of
                None \<Rightarrow> \<lparr>weight = w, comment = c\<rparr>
              | Some e \<Rightarrow> e\<lparr>weight := max w (weight e)\<rparr>)
      else map_of t k')"
proof (cases "map_of t k")
  case None
  then show ?thesis
    by (simp add: put_def map_add_def split: option.splits)
next
  case (Some e)
  then show ?thesis
    by (simp add: put_def map_of_set_weight)
qed

lemma keys_fold_put:
  "set (map fst (fold put rs t)) = set (map fst t) \<union> fst ` set rs"
proof (induction rs arbitrary: t)
  case Nil
  then show ?case by simp
next
  case (Cons r rs)
  show ?case
    unfolding fold_simps Cons.IH keys_put by force
qed

lemma distinct_fold_put:
  "distinct (map fst t) \<Longrightarrow> distinct (map fst (fold put rs t))"
  by (induction rs arbitrary: t) (simp_all add: distinct_put)

lemma max_weight_merge:
  "max_weight (max w m # ws) = max_weight (m # w # ws)"
  by (cases "ws = []") (simp_all add: max_weight_def max.commute max.left_commute max.assoc)

lemma weight_fold_put:
  "map_option weight (map_of (fold put rs t) k) =
     max_weight ((case map_of t k of None \<Rightarrow> [] | Some e \<Rightarrow> [weight e])
                  @ map (\<lambda>r. fst (snd r)) (filter (\<lambda>r. fst r = k) rs))"
proof (induction rs arbitrary: t)
  case Nil
  then show ?case by (simp add: max_weight_def split: option.splits)
next
  case (Cons r rs)
  obtain k0 w c where r: "r = (k0, w, c)" by (cases r)
  show ?case
  proof (cases "k0 = k")
    case True
    show ?thesis
    proof (cases "map_of t k")
      case None
      with True r show ?thesis by (simp add: Cons.IH map_of_put)
    next
      case (Some e)
      with True r show ?thesis
        by (simp add: Cons.IH map_of_put max_weight_merge)
    qed
  next
    case False
    with r show ?thesis by (simp add: Cons.IH map_of_put)
  qed
qed

lemma comment_fold_put:
  "map_option comment (map_of (fold put rs t) k) =
     (case map_of t k of
        Some e \<Rightarrow> Some (comment e)
      | None \<Rightarrow> map_option (\<lambda>r. snd (snd r)) (find (\<lambda>r. fst r = k) rs))"
proof (induction rs arbitrary: t)
  case Nil
  then show ?case by (simp split: option.splits)
next
  case (Cons r rs)
  obtain k0 w c where r: "r = (k0, w, c)" by (cases r)
  show ?case
  proof (cases "k0 = k")
    case True
    with r show ?thesis
      by (simp add: Cons.IH map_of_put split: option.splits)
  next
    case False
    with r show ?thesis by (simp add: Cons.IH map_of_put split: option.splits)
  qed
qed

lemma reader_returns:
  assumes "all_parse env (table_region ls)"
  shows "read_lines env ls reader_init =
     Inr \<lparr>head = written_head ls, tail = trailer_lines ls,
          table = fold put (records_of env (table_region ls)) [],
          reading_head = (\<not> has_marker ls),
          reading_table = (trailer_lines ls = [])\<rparr>"
  using assms by (simp add: read_lines_init store_lines_fold)

lemma reader_fails:
  assumes "\<not> all_parse env (table_region ls)"
  shows "read_lines env ls reader_init = Inl ValueError"
  using assms by (simp add: read_lines_init store_lines_fold)

subsection \<open>Well-formed lines and the diagnostics\<close>

lemma malformed_iff:
  "malformed env l \<longleftrightarrow>
     (case parsed env l of None \<Rightarrow> True | Some r \<Rightarrow> length (snd (fst r)) \<noteq> 1)"
  by (auto simp: malformed_def parsed_def unpack_line_def Let_def
      split: list.splits option.splits)

lemma records_of_set:
  "r \<in> set (records_of env ls) \<longleftrightarrow> (\<exists>l \<in> set ls. parsed env l = Some r)"
  by (induction ls) (auto simp: records_of_def map_filter_simps split: option.splits)

lemma store_keys:
  "set (map fst (fold put (records_of env ls) [])) = fst ` set (records_of env ls)"
  using keys_fold_put [of "records_of env ls" "[]"] by simp

lemma normalizer_raises:
  assumes "k \<in> set (map fst t)" and "length (snd k) \<noteq> 1"
  shows "\<exists>e. variant_normalizer env t = Inl e"
proof -
  from assms(2) have "unicode_name (snd k) \<noteq> Inr ()"
    by (simp add: unicode_name_def)
  with assms(1) have "\<not> (\<forall>k \<in> set (map fst t).
      unicode_name (snd k) = Inr () \<and> variants_lookup env (snd k) = Inr ())"
    by blast
  then have "\<not> (\<exists>t'. visit_keys env (map fst t) t = Inr t')"
    using visit_keys_returns_iff [of env "map fst t" t] by blast
  then show ?thesis
    unfolding variant_normalizer_def by (cases "visit_keys env (map fst t) t") auto
qed

lemma single_characters_keys:
  "single_characters t \<longleftrightarrow> (\<forall>k \<in> set (map fst t). length (snd k) = 1)"
  by (auto simp: single_characters_def list_all_iff)






subsection \<open>The writer\<close>

lemma decorate_Inr:
  "decorate t = Inr ds \<Longrightarrow>
   map snd ds = t \<and> list_all (\<lambda>d. sort_key_of (snd d) = Inr (fst d)) ds"
proof (induction t arbitrary: ds)
  case Nil
  then show ?case by auto
next
  case (Cons x t)
  then show ?case
    by (auto split: sum.splits)
qed

lemma decorate_map_snd:
  "list_all (\<lambda>d. sort_key_of (snd d) = Inr (fst d)) ds \<Longrightarrow> decorate (map snd ds) = Inr ds"
  by (induction ds) auto

lemma decorate_returns:
  "single_characters t \<Longrightarrow> \<exists>ds. decorate t = Inr ds"
proof (induction t)
  case Nil
  then show ?case by simp
next
  case (Cons x t)
  from Cons.prems have "length (snd (fst x)) = 1" and "single_characters t"
    by (simp_all add: single_characters_def)
  then obtain c ds where "snd (fst x) = [c]" and "decorate t = Inr ds"
    using Cons.IH by (cases "snd (fst x)") auto
  then show ?case
    by (simp add: sort_key_of_def ord_def)
qed

lemma sort_key_of_inj:
  assumes "sort_key_of x = Inr k" and "sort_key_of y = Inr k"
  shows "fst x = fst y"
proof -
  from assms obtain c where "snd (fst x) = [c]" and "snd (fst y) = [c]"
    and "fst (fst x) = fst (fst y)"
    by (auto simp: sort_key_of_def ord_def split: sum.splits list.splits)
  then show ?thesis by (simp add: prod_eq_iff)
qed

lemma decorated_distinct:
  assumes "decorate t = Inr ds" and "distinct (map fst t)"
  shows "distinct (map fst ds)"
proof -
  note d = decorate_Inr [OF assms(1)]
  have "map (\<lambda>d. fst (snd d)) ds = map fst (map snd ds)"
    by (simp add: comp_def)
  with d assms(2) have dist: "distinct (map (\<lambda>d. fst (snd d)) ds)"
    by simp
  have "inj_on fst (set ds)"
  proof (rule inj_onI)
    fix a b assume a: "a \<in> set ds" and b: "b \<in> set ds" and eq: "fst a = fst b"
    from d a b have "sort_key_of (snd a) = Inr (fst a)" "sort_key_of (snd b) = Inr (fst b)"
      by (auto simp: list_all_iff)
    with eq have "fst (snd a) = fst (snd b)"
      by (auto intro: sort_key_of_inj)
    with dist a b have "a = b"
      by (meson distinct_map inj_onD)
    then show "a = b" .
  qed
  moreover from dist have "distinct ds"
    by (simp add: distinct_map)
  ultimately show ?thesis
    by (simp add: distinct_map)
qed

lemma sorted_items_strict:
  assumes "sorted_items t = Inr items" and "distinct (map fst t)"
  shows "\<exists>ks. map sort_key_of items = map Inr ks \<and> sorted_wrt (<) ks
           \<and> sorted_items items = Inr items"
proof -
  from assms(1) obtain ds where ds: "decorate t = Inr ds"
    and items: "items = map snd (sort_key fst ds)"
    by (auto simp: sorted_items_def split: sum.splits)
  let ?ds = "sort_key fst ds"
  from decorate_Inr [OF ds] have all: "list_all (\<lambda>d. sort_key_of (snd d) = Inr (fst d)) ?ds"
    by (simp add: list_all_iff)
  then have keys: "map sort_key_of items = map Inr (map fst ?ds)"
    by (simp add: items list_all_iff)
  have srt: "sorted (map fst ?ds)"
    by simp
  have "distinct (map fst ds)"
    using ds assms(2) by (rule decorated_distinct)
  then have "distinct (map fst ?ds)"
    by (simp add: distinct_map)
  with srt have strict: "sorted_wrt (<) (map fst ?ds)"
    by (simp add: strict_sorted_iff)
  have "decorate items = Inr ?ds"
    unfolding items using all by (rule decorate_map_snd)
  moreover have "sort_key fst ?ds = ?ds"
    using srt by (rule sort_key_id_if_sorted)
  ultimately have "sorted_items items = Inr items"
    by (simp add: sorted_items_def items)
  with keys strict show ?thesis by blast
qed

lemma sorted_items_returns:
  "single_characters t \<Longrightarrow> \<exists>items. sorted_items t = Inr items"
  by (drule decorate_returns) (auto simp: sorted_items_def)


lemma normalizer_single_characters:
  assumes "variant_normalizer env t = Inr t'"
  shows "single_characters t'"
proof -
  from assms have "\<exists>u. visit_keys env (map fst t) t = Inr u"
    by (simp add: variant_normalizer_def)
  then have "\<forall>k \<in> set (map fst t). unicode_name (snd k) = Inr ()"
    unfolding visit_keys_returns_iff by blast
  then have "\<forall>k \<in> set (map fst t). length (snd k) = 1"
    by (auto simp: unicode_name_def split: if_splits)
  then show ?thesis
    unfolding single_characters_keys normalizer_keys [OF assms] .
qed

text \<open>No run ends after the output file was opened: a run aborts before, or writes it all.\<close>

lemma run_never_partial: "improve_quick5 env inputfile \<noteq> Partial e w"
proof -
  have "write_file h t' tl \<noteq> Partial e w" if "variant_normalizer env t = Inr t'" for h t t' tl
    using sorted_items_returns [OF normalizer_single_characters [OF that]]
    by (auto simp: write_file_def)
  then show ?thesis
    by (auto simp: improve_quick5_def split: sum.splits)
qed

lemma reader_distinct:
  assumes "read_lines env ls reader_init = Inr s"
  shows "distinct (map fst (table s))"
proof (cases "all_parse env (table_region ls)")
  case True
  have "distinct (map fst (fold put (records_of env (table_region ls)) []))"
    by (rule distinct_fold_put) simp
  with assms show ?thesis
    unfolding reader_returns [OF True] by auto
next
  case False
  with assms show ?thesis
    by (simp add: reader_fails)
qed

lemma written_form:
  assumes "improve_quick5 env inputfile = Written out"
  shows "\<exists>s t items.
      read_lines env (file_lines inputfile) reader_init = Inr s
    \<and> variant_normalizer env (table s) = Inr t
    \<and> sorted_items t = Inr items
    \<and> out = concat (head s) @ concat (map format_item items) @ concat (tail s)"
  using assms
  by (auto simp: improve_quick5_def write_file_def split: sum.splits)

text \<open>The key of line 179 orders the records as the specification says.\<close>

lemma key_less_precedes:
  assumes "sort_key_of a = Inr ka" and "sort_key_of b = Inr kb" and "ka < kb"
  shows "precedes a b"
proof -
  from assms(1) obtain c where a: "snd (fst a) = [c]"
    and ka: "ka = (fst (fst a), - weight (snd a), c)"
    by (auto simp: sort_key_of_def ord_def split: sum.splits list.splits)
  from assms(2) obtain d where b: "snd (fst b) = [d]"
    and kb: "kb = (fst (fst b), - weight (snd b), d)"
    by (auto simp: sort_key_of_def ord_def split: sum.splits list.splits)
  from assms(3) show ?thesis
    unfolding ka kb precedes_def a b
    by (auto simp: less_prod_def)
qed

lemma sorted_wrt_keys:
  assumes "map f xs = map Inr ks" and "sorted_wrt (<) ks"
    and "\<And>a b ka kb. f a = Inr ka \<Longrightarrow> f b = Inr kb \<Longrightarrow> ka < kb \<Longrightarrow> P a b"
  shows "sorted_wrt P xs"
  using assms(1,2)
proof (induction xs arbitrary: ks)
  case Nil
  then show ?case by simp
next
  case (Cons x xs)
  then obtain k ks' where ks: "ks = k # ks'" and x: "f x = Inr k"
    and rest: "map f xs = map Inr ks'"
    by (cases ks) auto
  have "P x y" if "y \<in> set xs" for y
  proof -
    from that have "f y \<in> set (map Inr ks')"
      unfolding rest [symmetric] by simp
    then obtain k' where "f y = Inr k'" and "k' \<in> set ks'"
      by auto
    with Cons.prems(2) x show ?thesis
      unfolding ks by (auto intro: assms(3))
  qed
  moreover from Cons.prems(2) have "sorted_wrt (<) ks'"
    unfolding ks by simp
  with rest have "sorted_wrt P xs"
    by (rule Cons.IH)
  ultimately show ?case by simp
qed

lemma sorted_items_mset:
  assumes "sorted_items t = Inr items"
  shows "mset items = mset t"
proof -
  from assms obtain ds where ds: "decorate t = Inr ds"
    and items: "items = map snd (sort_key fst ds)"
    by (auto simp: sorted_items_def split: sum.splits)
  from decorate_Inr [OF ds] have "map snd ds = t" ..
  then have "mset t = image_mset snd (mset ds)"
    by (metis mset_map)
  then show ?thesis
    by (simp add: items)
qed

lemma sorted_items_precedes:
  assumes "sorted_items t = Inr items" and "distinct (map fst t)"
  shows "mset items = mset t \<and> sorted_wrt precedes items \<and> sorted_items items = Inr items"
proof -
  from sorted_items_strict [OF assms] obtain ks where
    keys: "map sort_key_of items = map Inr ks" and strict: "sorted_wrt (<) ks"
    and again: "sorted_items items = Inr items"
    by blast
  from keys strict have "sorted_wrt precedes items"
    by (rule sorted_wrt_keys) (rule key_less_precedes)
  with sorted_items_mset [OF assms(1)] again show ?thesis
    by simp
qed


lemma file_lines_concat: "concat (file_lines s) = s"
  by (induction s) (auto split: list.splits)

lemma no_marker_lines:
  assumes "\<not> has_marker ls"
  shows "written_head ls = ls" and "table_region ls = []" and "trailer_lines ls = []"
proof -
  from assms have "\<forall>l \<in> set ls. \<not> startswith l BEGIN_TABLE"
    by (simp add: has_marker_def list_ex_iff)
  then have tw: "takeWhile (\<lambda>l. \<not> startswith l BEGIN_TABLE) ls = ls"
    and dw: "dropWhile (\<lambda>l. \<not> startswith l BEGIN_TABLE) ls = []"
    by simp_all
  from assms show "written_head ls = ls"
    unfolding written_head_def header_lines_def tw by simp
  show "table_region ls = []"
    unfolding table_region_def after_marker_def dw by simp
  show "trailer_lines ls = []"
    unfolding trailer_lines_def after_marker_def dw by simp
qed

text \<open>
  Without the marker the reader appends every line to the header and leaves the
  table and the trailer empty.
\<close>

lemma no_marker_read:
  assumes "\<not> has_marker ls"
  shows "read_lines env ls reader_init =
     Inr \<lparr>head = ls, tail = [], table = [], reading_head = True, reading_table = True\<rparr>"
proof -
  note l = no_marker_lines [OF assms]
  have "all_parse env (table_region ls)"
    by (simp add: l all_parse_def)
  from reader_returns [OF this] assms show ?thesis
    by (simp add: l records_of_def map_filter_simps)
qed

lemma no_marker_run:
  assumes "\<not> has_marker (file_lines inputfile)"
  shows "improve_quick5 env inputfile =
     (if variants_imported env then Abort UnboundLocalError else Written inputfile)"
proof -
  note l = no_marker_lines [OF assms]
  have "all_parse env (table_region (file_lines inputfile))"
    by (simp add: l all_parse_def)
  from reader_returns [OF this] show ?thesis
    by (simp add: improve_quick5_def l records_of_def map_filter_simps variant_normalizer_def
        log_problems_def write_file_def sorted_items_def file_lines_concat)
qed


subsection \<open>The examples, evaluated\<close>

lemmas text_defs =
  ustr_def startswith_def BEGIN_TABLE_def END_TABLE_def strip_def isspace_def

lemmas int_defs = dec_int_def int_space_def to_decimal_def

lemma example_file_lines: "file_lines example_file = example_lines"
  by (simp add: example_file_def example_lines_def example_region_def ustr_def)

lemma example_regions:
  "has_marker example_lines"
  "header_lines example_lines = [ustr ''# quick5'' @ [10]]"
  "table_region example_lines = example_region"
  "trailer_lines example_lines = [ustr ''END_TABLE'' @ [10], ustr ''trailer'']"
  by (simp_all add: example_lines_def example_region_def has_marker_def header_lines_def
      table_region_def trailer_lines_def after_marker_def text_defs)

lemma example_envs:
  "py_int plain_env = dec_int" "py_int module_env = dec_int" "py_int offline_env = dec_int"
  by (simp_all add: plain_env_def module_env_def offline_env_def)

lemma example_records:
  assumes "py_int env = dec_int"
  shows "map (parsed env) example_region =
     [Some ((ustr ''a'', [20013]), 1000, []),
      Some ((ustr ''x'', [20013]), 1000, []),
      Some ((ustr ''ab'', [23383]), 500, []),
      Some ((ustr ''q'', [33410]), 1000, ustr ''first''),
      Some ((ustr ''q'', [33410]), 800, ustr ''second''),
      Some ((ustr ''q'', [33422]), 1000, []),
      Some ((ustr ''q'', [40856]), 1200, [])]"
  by (simp add: example_region_def parsed_def unpack_line_def assms int_defs text_defs)


lemma example_all_parse:
  assumes "py_int env = dec_int"
  shows "all_parse env example_region"
  using example_records [OF assms] by (simp add: all_parse_def example_region_def)

lemma example_record_list:
  assumes "py_int env = dec_int"
  shows "records_of env example_region =
     [((ustr ''a'', [20013]), 1000, []),
      ((ustr ''x'', [20013]), 1000, []),
      ((ustr ''ab'', [23383]), 500, []),
      ((ustr ''q'', [33410]), 1000, ustr ''first''),
      ((ustr ''q'', [33410]), 800, ustr ''second''),
      ((ustr ''q'', [33422]), 1000, []),
      ((ustr ''q'', [40856]), 1200, [])]"
  using example_records [OF assms]
  by (simp add: records_of_def map_filter_def example_region_def)

lemma example_read:
  assumes "py_int env = dec_int"
  shows "read_lines env example_lines reader_init =
     Inr \<lparr>head = [ustr ''# quick5'' @ [10], BEGIN_TABLE @ [10]],
          tail = [ustr ''END_TABLE'' @ [10], ustr ''trailer''],
          table = example_table, reading_head = False, reading_table = False\<rparr>"
proof -
  have "fold put (records_of env example_region) [] = example_table"
    unfolding example_record_list [OF assms]
    by (simp add: put_def set_weight_def example_table_def ustr_def)
  with reader_returns [of env example_lines] example_all_parse [OF assms] show ?thesis
    by (simp add: example_regions written_head_def)
qed

lemma example_normalized:
  "variant_normalizer plain_env example_table = Inr example_table_normalized"
proof -
  have "single_characters example_table"
    by (simp add: single_characters_def example_table_def)
  moreover have "lookups_quiet plain_env example_table"
    by (simp add: lookups_quiet_def example_table_def variants_lookup_def plain_env_def)
  ultimately have "variant_normalizer plain_env example_table = Inr (demotion_result example_table)"
    by (rule variant_normalizer_returns)
  also have "demotion_result example_table = example_table_normalized"
    by (simp add: demotion_result_def example_table_normalized_def demoted_where_def
        example_table_def has_x_record_def short_alpha_def alphabet startswith_def ustr_def)
  finally show ?thesis .
qed

lemma example_sorted: "sorted_items example_table_normalized = Inr example_items"
  by (simp add: sorted_items_def sort_key_of_def ord_def example_table_normalized_def
      example_items_def ustr_def)

lemma example_run: "improve_quick5 plain_env example_file = Written example_output"
proof -
  have "concat (map format_item example_items) =
     ustr ''a'' @ [9, 20013, 9] @ ustr ''900'' @ [10]
     @ ustr ''ab'' @ [9, 23383, 9] @ ustr ''500'' @ [10]
     @ ustr ''q'' @ [9, 40856, 9] @ ustr ''1200'' @ [10]
     @ ustr ''q'' @ [9, 33410, 9] @ ustr ''1000'' @ [9] @ ustr ''first'' @ [10]
     @ ustr ''q'' @ [9, 33422, 9] @ ustr ''1000'' @ [10]
     @ ustr ''x'' @ [9, 20013, 9] @ ustr ''1000'' @ [10]"
    by (simp add: example_items_def format_item_def str_int_def digits.simps ustr_def)
  moreover have "log_problems plain_env example_table_normalized = Inr ()"
    by (simp add: log_problems_def plain_env_def)
  ultimately show ?thesis
    by (simp add: improve_quick5_def example_file_lines example_read example_envs
        example_normalized write_file_def example_sorted example_output_def BEGIN_TABLE_def)
qed

lemma visit_keys_error:
  "visit_keys env ks t = Inl e \<Longrightarrow> list_all (\<lambda>k. length (snd k) = 1) ks \<Longrightarrow> e = URLError"
proof (induction ks arbitrary: t)
  case Nil
  then show ?case by simp
next
  case (Cons k ks)
  show ?case
  proof (cases "visit env k t")
    case (Inl e')
    with Cons.prems show ?thesis
      by (auto simp: visit_def unicode_name_def variants_lookup_def
          split: prod.splits sum.splits if_splits)
  next
    case (Inr t')
    with Cons.prems Cons.IH [of t'] show ?thesis by simp
  qed
qed

lemma example_offline: "improve_quick5 offline_env example_file = Abort URLError"
proof -
  have "(ustr ''q'', [33410]) \<in> set (map fst example_table)"
    by (simp add: example_table_def)
  moreover have "variants_lookup offline_env (snd (ustr ''q'', [33410])) \<noteq> Inr ()"
    by (simp add: variants_lookup_def offline_env_def module_env_def plain_env_def)
  ultimately have "\<not> (\<exists>t'. visit_keys offline_env (map fst example_table) example_table = Inr t')"
    unfolding visit_keys_returns_iff by blast
  then obtain e where e: "visit_keys offline_env (map fst example_table) example_table = Inl e"
    by (cases "visit_keys offline_env (map fst example_table) example_table") auto
  moreover have "list_all (\<lambda>k. length (snd k) = 1) (map fst example_table)"
    by (simp add: example_table_def)
  ultimately have "e = URLError"
    by (rule visit_keys_error)
  with e show ?thesis
    by (simp add: improve_quick5_def example_file_lines example_read example_envs
        variant_normalizer_def)
qed

subsection \<open>The claims about the normalizer\<close>

text \<open>
  C1, x-demotion. When the pass has run, for every character \<open>ch\<close> that has a record
  whose input starts with x, every record \<open>(k, ch)\<close> whose key \<open>k\<close> has length 1 or 2
  and consists of letters of the alphabet without x has weight exactly 900,
  whatever its weight was before.
\<close>

theorem x_demotion:
  assumes "variant_normalizer env t = Inr t'"
    and "(kx, ch) \<in> fst ` set t'"
    and "startswith kx (ustr ''x'')"
    and "short_alpha k"
    and "((k, ch), e) \<in> set t'"
  shows "weight e = 900"
proof -
  from assms(2) have "(kx, ch) \<in> set (map fst t)"
    using normalizer_keys [OF assms(1)] by (metis set_map)
  with assms(3) have "has_x_record t ch"
    unfolding has_x_record_iff by force
  with assms(4,5) show ?thesis
    unfolding normalizer_demoted_where [OF assms(1)]
    by (auto dest: mem_demoted_where)
qed

theorem x_demotion_witness:
  "variant_normalizer plain_env example_table = Inr example_table_normalized
   \<and> (ustr ''x'', [20013]) \<in> fst ` set example_table_normalized
   \<and> startswith (ustr ''x'') (ustr ''x'')
   \<and> short_alpha (ustr ''a'')
   \<and> ((ustr ''a'', [20013]), \<lparr>weight = 900, comment = []\<rparr>) \<in> set example_table_normalized
   \<and> weight \<lparr>weight = 900, comment = []\<rparr> = 900"
proof -
  note r = example_normalized
  have h2: "(ustr ''x'', [20013]) \<in> fst ` set example_table_normalized"
    by (simp add: example_table_normalized_def)
  have h3: "startswith (ustr ''x'') (ustr ''x'')"
    by (simp add: startswith_def)
  have h4: "short_alpha (ustr ''a'')"
    by (simp add: short_alpha_def alphabet ustr_def)
  have h5: "((ustr ''a'', [20013]), \<lparr>weight = 900, comment = []\<rparr>) \<in> set example_table_normalized"
    by (simp add: example_table_normalized_def)
  from x_demotion [OF r h2 h3 h4 h5] r h2 h3 h4 h5 show ?thesis
    by simp
qed

text \<open>
  C5, non-target preservation. The pass leaves alone every record whose character
  has no record with an input starting with x, and every record whose input is
  not a string of 1 or 2 letters of the alphabet without x: its entry after the
  pass is its entry before the pass, the one the reader produced.
\<close>

theorem non_target_preserved:
  assumes "variant_normalizer env t = Inr t'"
    and "\<not> has_x_record t ch \<or> \<not> short_alpha k"
  shows "map_of t' (k, ch) = map_of t (k, ch)"
  unfolding normalizer_demoted_where [OF assms(1)]
  using assms(2) by (intro map_of_demoted_where) auto

theorem non_target_preserved_witness:
  "variant_normalizer plain_env example_table = Inr example_table_normalized
   \<and> \<not> has_x_record example_table [23383]
   \<and> map_of example_table_normalized (ustr ''ab'', [23383])
       = map_of example_table (ustr ''ab'', [23383])
   \<and> \<not> short_alpha (ustr ''x'')
   \<and> map_of example_table_normalized (ustr ''x'', [20013])
       = map_of example_table (ustr ''x'', [20013])"
proof -
  note r = example_normalized
  have h1: "\<not> has_x_record example_table [23383]"
    by (simp add: has_x_record_def example_table_def startswith_def ustr_def)
  have h2: "\<not> short_alpha (ustr ''x'')"
    by (simp add: short_alpha_def alphabet ustr_def)
  from non_target_preserved [OF r disjI1 [OF h1]] non_target_preserved [OF r disjI2 [OF h2]]
    r h1 h2
  show ?thesis by blast
qed

text \<open>
  C6, idempotence. For every table, running the pass twice in succession gives
  what running it once gives: the same table, or the same exception.
\<close>

theorem normalizer_idempotent:
  "variant_normalizer_twice env t = variant_normalizer env t"
  by (cases "variant_normalizer env t") (simp_all add: variant_normalizer_twice_def normalizer_again)

theorem normalizer_idempotent_witness:
  "variant_normalizer_twice plain_env example_table = Inr example_table_normalized"
  using normalizer_idempotent [of plain_env example_table] example_normalized
  by simp

text \<open>
  C7, the keys are preserved. The pass inserts no pair (input, character) and
  deletes none: the keys of the table after the pass are the keys before it, in
  the same order.
\<close>

theorem normalizer_preserves_keys:
  assumes "variant_normalizer env t = Inr t'"
  shows "map fst t' = map fst t \<and> dom (map_of t') = dom (map_of t)"
proof -
  have "map fst t' = map fst t"
    using assms by (rule normalizer_keys)
  moreover from this have "dom (map_of t') = dom (map_of t)"
    by (metis dom_map_of_conv_image_fst set_map)
  ultimately show ?thesis ..
qed

theorem normalizer_preserves_keys_witness:
  "variant_normalizer plain_env example_table = Inr example_table_normalized
   \<and> map fst example_table_normalized = map fst example_table
   \<and> dom (map_of example_table_normalized) = dom (map_of example_table)"
  using normalizer_preserves_keys [OF example_normalized] example_normalized
  by simp

subsection \<open>The claims about the reader\<close>

text \<open>
  C2, merge by the larger weight. When every line of the table region parses, the
  reader returns; the keys of its table are pairwise distinct, and the weight
  stored for a key is the largest of the weights of all lines with that key (for
  two lines with weights w1 and w2, \<open>max w1 w2\<close>). As this holds for every list of
  lines, it holds after every line read so far.
\<close>

theorem merge_max:
  assumes "all_parse env (table_region ls)"
  shows "\<exists>s. read_lines env ls reader_init = Inr s
           \<and> distinct (map fst (table s))
           \<and> (\<forall>k. map_option weight (map_of (table s) k)
                   = max_weight (weights_seen env (table_region ls) k))"
  unfolding reader_returns [OF assms]
  by (simp add: distinct_fold_put weight_fold_put weights_seen_def)

theorem merge_max_witness:
  "all_parse plain_env (table_region example_lines)
   \<and> (\<exists>s. read_lines plain_env example_lines reader_init = Inr s
          \<and> distinct (map fst (table s))
          \<and> map_option weight (map_of (table s) (ustr ''q'', [33410])) = Some (max 1000 800))"
proof -
  have h: "all_parse plain_env (table_region example_lines)"
    by (simp add: example_regions example_all_parse example_envs)
  have "weights_seen plain_env (table_region example_lines) (ustr ''q'', [33410]) = [1000, 800]"
    by (simp add: weights_seen_def example_regions example_record_list [OF example_envs(1)]
        ustr_def)
  then have m: "max_weight (weights_seen plain_env (table_region example_lines) (ustr ''q'', [33410]))
      = Some (max 1000 800)"
    by (simp add: max_weight_def)
  from merge_max [OF h] obtain s where
    "read_lines plain_env example_lines reader_init = Inr s"
    and "distinct (map fst (table s))"
    and "\<forall>k. map_option weight (map_of (table s) k)
          = max_weight (weights_seen plain_env (table_region example_lines) k)"
    by blast
  with m have "read_lines plain_env example_lines reader_init = Inr s
      \<and> distinct (map fst (table s))
      \<and> map_option weight (map_of (table s) (ustr ''q'', [33410])) = Some (max 1000 800)"
    by simp
  with h show ?thesis by blast
qed

text \<open>
  C9, the first comment is kept. When every line of the table region parses, the
  comment stored for a key is the comment of the first line with that key; the
  comments of the later lines with that key are dropped.
\<close>

theorem first_comment_kept:
  assumes "all_parse env (table_region ls)"
  shows "\<exists>s. read_lines env ls reader_init = Inr s
           \<and> (\<forall>k. map_option comment (map_of (table s) k)
                   = first_comment env (table_region ls) k)"
  unfolding reader_returns [OF assms]
  by (simp add: comment_fold_put first_comment_def)

theorem first_comment_kept_witness:
  "all_parse plain_env (table_region example_lines)
   \<and> (\<exists>s. read_lines plain_env example_lines reader_init = Inr s
          \<and> map_option comment (map_of (table s) (ustr ''q'', [33410])) = Some (ustr ''first''))"
proof -
  have h: "all_parse plain_env (table_region example_lines)"
    by (simp add: example_regions example_all_parse example_envs)
  have c: "first_comment plain_env (table_region example_lines) (ustr ''q'', [33410])
      = Some (ustr ''first'')"
    by (simp add: first_comment_def example_regions example_record_list [OF example_envs(1)]
        ustr_def)
  from first_comment_kept [OF h] obtain s where
    "read_lines plain_env example_lines reader_init = Inr s"
    and "\<forall>k. map_option comment (map_of (table s) k)
          = first_comment plain_env (table_region example_lines) k"
    by blast
  with c have "read_lines plain_env example_lines reader_init = Inr s
      \<and> map_option comment (map_of (table s) (ustr ''q'', [33410])) = Some (ustr ''first'')"
    by simp
  with h show ?thesis by blast
qed

subsection \<open>The claims about the run\<close>

text \<open>
  C8, a malformed line aborts the run. If some line of the table region is
  malformed (not 3 or 4 fields, a weight that is no integer, a character field
  that is not one code point), the run ends with an exception before the output
  file is opened: nothing is written.
\<close>

theorem malformed_aborts:
  assumes "list_ex (malformed env) (table_region (file_lines inputfile))"
  shows "\<exists>e. improve_quick5 env inputfile = Abort e"
proof (cases "all_parse env (table_region (file_lines inputfile))")
  case False
  then show ?thesis
    by (simp add: improve_quick5_def reader_fails)
next
  case True
  let ?rs = "records_of env (table_region (file_lines inputfile))"
  from assms obtain l where l: "l \<in> set (table_region (file_lines inputfile))"
    and bad: "malformed env l"
    by (auto simp: list_ex_iff)
  from True l obtain r where r: "parsed env l = Some r"
    by (auto simp: all_parse_def list_all_iff)
  with bad have len: "length (snd (fst r)) \<noteq> 1"
    by (simp add: malformed_iff)
  from l r have "fst r \<in> fst ` set ?rs"
    by (auto simp: records_of_set intro!: imageI)
  then have "fst r \<in> set (map fst (fold put ?rs []))"
    by (simp only: store_keys)
  from normalizer_raises [OF this len, of env] obtain e where
    "variant_normalizer env (fold put ?rs []) = Inl e"
    by blast
  then show ?thesis
    by (simp add: improve_quick5_def reader_returns [OF True])
qed

theorem malformed_aborts_witness:
  "list_ex (malformed plain_env) (table_region (file_lines bad_weight_file))
   \<and> (\<exists>e. improve_quick5 plain_env bad_weight_file = Abort e)
   \<and> list_ex (malformed plain_env) (table_region (file_lines bad_character_file))
   \<and> (\<exists>e. improve_quick5 plain_env bad_character_file = Abort e)"
proof -
  have h1: "list_ex (malformed plain_env) (table_region (file_lines bad_weight_file))"
    by (simp add: bad_weight_file_def table_region_def after_marker_def malformed_def
        plain_env_def int_defs text_defs)
  have h2: "list_ex (malformed plain_env) (table_region (file_lines bad_character_file))"
    by (simp add: bad_character_file_def table_region_def after_marker_def malformed_def
        plain_env_def int_defs text_defs)
  from malformed_aborts [OF h1] malformed_aborts [OF h2] h1 h2 show ?thesis
    by blast
qed

text \<open>
  C3, the order of the table body. In every file the run writes, the body between
  the header and the trailer is the formatted list of the records of the table
  after the pass, each record once, in this order: by input ascending; for equal
  inputs by weight descending; for equal inputs and weights by the code point of
  the character ascending. The order is strict, every record precedes each later
  one, and sorting the written records again by the key of the writer gives the
  same list.
\<close>

theorem body_sorted:
  assumes "improve_quick5 env inputfile = Written out"
  shows "\<exists>s t items.
      read_lines env (file_lines inputfile) reader_init = Inr s
    \<and> variant_normalizer env (table s) = Inr t
    \<and> mset items = mset t
    \<and> out = concat (head s) @ concat (map format_item items) @ concat (tail s)
    \<and> sorted_wrt precedes items
    \<and> sorted_items items = Inr items"
proof -
  from written_form [OF assms] obtain s t items where
    r: "read_lines env (file_lines inputfile) reader_init = Inr s"
    and n: "variant_normalizer env (table s) = Inr t"
    and srt: "sorted_items t = Inr items"
    and out: "out = concat (head s) @ concat (map format_item items) @ concat (tail s)"
    by blast
  have "distinct (map fst (table s))"
    using r by (rule reader_distinct)
  then have "distinct (map fst t)"
    by (simp only: normalizer_keys [OF n])
  from sorted_items_precedes [OF srt this] r n out show ?thesis
    by blast
qed

theorem body_sorted_witness:
  "improve_quick5 plain_env example_file = Written example_output
   \<and> (\<exists>s t items.
      read_lines plain_env (file_lines example_file) reader_init = Inr s
    \<and> variant_normalizer plain_env (table s) = Inr t
    \<and> mset items = mset t
    \<and> example_output = concat (head s) @ concat (map format_item items) @ concat (tail s)
    \<and> sorted_wrt precedes items
    \<and> sorted_items items = Inr items)
   \<and> sorted_wrt precedes example_items
   \<and> \<not> sorted_wrt precedes example_table_normalized"
proof -
  have "sorted_wrt precedes example_items"
    by (simp add: example_items_def precedes_def ustr_def)
  moreover have "\<not> sorted_wrt precedes example_table_normalized"
    by (simp add: example_table_normalized_def precedes_def ustr_def)
  ultimately show ?thesis
    using body_sorted [OF example_run] example_run by blast
qed




text \<open>
  C10, an input file without the marker. The claim is that the output file is a
  copy of the input file. With the optional module imported the run raises
  UnboundLocalError at line 173, before the output file is opened: the table is
  empty, the loop body never assigned the counter that line 173 reads. (Without
  the module the file is copied, see \<open>no_marker_run\<close>.)
\<close>

theorem unmarked_file_with_module:
  "\<not> has_marker (file_lines unmarked_file)
   \<and> improve_quick5 module_env unmarked_file = Abort UnboundLocalError
   \<and> improve_quick5 plain_env unmarked_file = Written unmarked_file"
proof -
  have "file_lines unmarked_file = [unmarked_file]"
    by (simp add: unmarked_file_def ustr_def)
  moreover have "\<not> startswith unmarked_file BEGIN_TABLE"
    by (simp add: unmarked_file_def text_defs)
  ultimately show ?thesis
    by (simp add: improve_quick5_def has_marker_def reader_init_def read_line_def
        variant_normalizer_def log_problems_def module_env_def plain_env_def
        write_file_def sorted_items_def)
qed

end
